theory Spec2Isabelle
  imports Complex_Main
begin

section \<open>The readable state and the read engine\<close>

text \<open>
  A chunk is a sequence of units (bytes of a buffer, characters of a string); its
  \<^verbatim>\<open>.length\<close> is the length of the list. A JavaScript value that may be
  \<^verbatim>\<open>null\<close> or \<^verbatim>\<open>undefined\<close> is an option. A JavaScript number is a
  rational (\<open>None\<close> when it is missing or not a number): the size argument of
  \<^verbatim>\<open>read\<close> is whatever number the caller hands over, the code never rounds it, and
  \<^verbatim>\<open>state.length\<close>, from which it is subtracted, is a number of the same kind.
\<close>

datatype js_error = NotImplemented | TypeError | ReferenceError | Other string

datatype dest = Stdout | Stderr | Sink nat

datatype 'a event = Readable | End | Error js_error | Data "'a list"

text \<open>
  What a method of the stream asks of its surroundings: an invocation of the producer
  hook \<^verbatim>\<open>this._read(n, onread)\<close>, a deferred
  \<^verbatim>\<open>process.nextTick(this.emit.bind(this, 'end'))\<close>, a synchronous
  \<^verbatim>\<open>this.emit(ev)\<close>, or \<^verbatim>\<open>pause()\<close> and \<^verbatim>\<open>resume()\<close> of a wrapped
  old-style stream.
\<close>

datatype 'a effect = CallRead int | NextTickEmitEnd | Emit "'a event" | StreamPause | StreamResume

record 'a ReadableState =
  bufferSize :: int
  lowWaterMark :: rat
  buffer :: "'a list list"
  length' :: rat
  pipes :: "dest list"
  flowing :: bool
  ended :: bool
  reading :: bool
  needReadable :: bool

record Options =
  opt_bufferSize :: "rat option"
  opt_lowWaterMark :: "rat option"

text \<open>
  \<^verbatim>\<open>~~x\<close>: the fraction is dropped (towards zero) and the rest is read as a signed
  32-bit integer.
\<close>

definition toInt32 :: "rat \<Rightarrow> int" where
  "toInt32 x = ((if 0 \<le> x then \<lfloor>x\<rfloor> else \<lceil>x\<rceil>) + 2147483648) mod 4294967296 - 2147483648"

text \<open>\<^verbatim>\<open>x || d\<close> on a number that may be missing: zero and undefined give the default.\<close>

definition or_default :: "rat option \<Rightarrow> rat \<Rightarrow> rat" where
  "or_default x d = (case x of None \<Rightarrow> d | Some v \<Rightarrow> if v = 0 then d else v)"

definition ReadableState :: "Options \<Rightarrow> 'a ReadableState" where
  "ReadableState options =
     \<lparr> bufferSize = toInt32 (or_default (opt_bufferSize options) (16 * 1024)),
       lowWaterMark = or_default (opt_lowWaterMark options) 1024,
       buffer = [],
       length' = 0,
       pipes = [],
       flowing = False,
       ended = False,
       reading = False,
       needReadable = False \<rparr>"

text \<open>The recorded size of a chunk queue: the sum of the chunk lengths.\<close>

definition queued :: "'a list list \<Rightarrow> int" where
  "queued list = sum_list (map (\<lambda>c. int (length c)) list)"

text \<open>
  Modelled from the spec: \<^verbatim>\<open>fromList(n, list, length)\<close> of from-list.js, which is
  not among the sources. The specification treats it as the primitive that consumes the
  first \<open>n\<close> units from the ordered chunk queue, splitting a chunk where needed; the
  result is the data taken and the queue that remains. The third argument of the call,
  the recorded total, plays no part in that description. The description is about whole
  numbers of units; where \<^verbatim>\<open>read\<close> hands over a size that is not whole, the callers
  below pass the whole units under it, as slicing a buffer at such an index does.
\<close>

fun fromList :: "nat \<Rightarrow> 'a list list \<Rightarrow> 'a list \<times> 'a list list" where
  "fromList n [] = ([], [])"
| "fromList n (c # cs) =
     (if n = 0 then ([], c # cs)
      else if n < length c then (take n c, drop n c # cs)
      else (case fromList (n - length c) cs of (d, rest) \<Rightarrow> (c @ d, rest)))"

text \<open>
  \<^verbatim>\<open>if (isNaN(n) || n <= 0) n = state.length\<close>: the size asked for, once a missing or
  non-positive one has been replaced by the buffered size.
\<close>

definition wanted :: "rat option \<Rightarrow> rat \<Rightarrow> rat" where
  "wanted n len = (case n of None \<Rightarrow> len | Some k \<Rightarrow> if k \<le> 0 then len else k)"

text \<open>
  \<^verbatim>\<open>Readable.prototype.read\<close>. The result is the returned value (\<open>None\<close> for
  \<^verbatim>\<open>null\<close>), the state afterwards and the effects in the order they are issued.
\<close>

definition read :: "rat option \<Rightarrow> 'a ReadableState \<Rightarrow> 'a list option \<times> 'a ReadableState \<times> 'a effect list" where
  "read n state =
     (if length' state = 0 \<and> ended state then (None, state, [NextTickEmitEnd])
      else
        let n1 = wanted n (length' state);
            defer = (n1 > length' state \<and> \<not> ended state \<and> length' state < lowWaterMark state);
            state1 = (if defer then state\<lparr>needReadable := True\<rparr> else state);
            n2 = (if n1 > length' state then (if defer then 0 else length' state) else n1);
            taken = (if n2 > 0 then Some (fromList (nat \<lfloor>n2\<rfloor>) (buffer state1)) else None);
            ret = map_option fst taken;
            state2 = (case taken of None \<Rightarrow> state1 | Some (d, rest) \<Rightarrow> state1\<lparr>buffer := rest\<rparr>);
            state3 = (if ret = None \<or> ret = Some [] then state2\<lparr>needReadable := True\<rparr> else state2);
            state4 = state3\<lparr>length' := length' state3 - n2\<rparr>
        in if \<not> ended state4 \<and> length' state4 < lowWaterMark state4 \<and> \<not> reading state4
           then (ret, state4\<lparr>reading := True\<rparr>, [CallRead (bufferSize state4)])
           else (ret, state4, []))"

text \<open>
  The callback \<^verbatim>\<open>onread(er, chunk)\<close> that \<^verbatim>\<open>read\<close> hands to the producer hook.
\<close>

definition onread :: "js_error option \<Rightarrow> 'a list option \<Rightarrow> 'a ReadableState \<Rightarrow> 'a ReadableState \<times> 'a effect list" where
  "onread er chunk state0 =
     (let state = state0\<lparr>reading := False\<rparr>;
          eof = (let state1 = state\<lparr>ended := True\<rparr>
                 in (state1, if length' state1 > 0 then [Emit Readable] else []))
      in case er of
        Some e \<Rightarrow> (state, [Emit (Error e)])
      | None \<Rightarrow>
          (case chunk of
             None \<Rightarrow> eof
           | Some c \<Rightarrow>
               if c = [] then eof
               else
                 let state1 = state\<lparr>length' := length' state + of_nat (length c)\<rparr>;
                     state2 = state1\<lparr>buffer := buffer state1 @ [c]\<rparr>;
                     chained = (if length' state2 < lowWaterMark state2
                                then [CallRead (bufferSize state2)] else [])
                 in if needReadable state2
                    then (state2\<lparr>needReadable := False\<rparr>, chained @ [Emit Readable])
                    else (state2, chained)))"

section \<open>The transform stage\<close>



text \<open>\<^verbatim>\<open>Transform.prototype._output(chunk)\<close>.\<close>

definition Transform_output :: "'a list option \<Rightarrow> 'a ReadableState \<Rightarrow> 'a ReadableState \<times> 'a effect list" where
  "Transform_output chunk state =
     (case chunk of
        None \<Rightarrow> (state, [])
      | Some c \<Rightarrow>
          if c = [] then (state, [])
          else
            let state1 = state\<lparr>buffer := buffer state @ [c]\<rparr>;
                state2 = state1\<lparr>length' := length' state1 + of_nat (length c)\<rparr>
            in if needReadable state2
               then (state2\<lparr>needReadable := False\<rparr>, [Emit Readable])
               else (state2, []))"

text \<open>\<^verbatim>\<open>done(er)\<close>, the finalize step.\<close>

definition Transform_done :: "js_error option \<Rightarrow> 'a ReadableState \<Rightarrow> 'a ReadableState \<times> 'a effect list" where
  "Transform_done er rs0 =
     (case er of
        Some e \<Rightarrow> (rs0, [Emit (Error e)])
      | None \<Rightarrow>
          let rs = rs0\<lparr>ended := True\<rparr>
          in if length' rs \<noteq> 0 \<and> needReadable rs then (rs, [Emit Readable])
             else if length' rs = 0 then (rs, [Emit End])
             else (rs, []))"

text \<open>
  The \<^verbatim>\<open>'finish'\<close> listener installed by the constructor. A flush step is user code; it
  is described by the chunks it hands to \<^verbatim>\<open>_output\<close> and the error it hands to
  \<^verbatim>\<open>done\<close>. Without a flush step \<^verbatim>\<open>done\<close> is called at once, with no argument.
\<close>

fun outputs :: "'a list option list \<Rightarrow> 'a ReadableState \<Rightarrow> 'a ReadableState \<times> 'a effect list" where
  "outputs [] rs = (rs, [])"
| "outputs (c # cs) rs =
     (case Transform_output c rs of (rs1, effs1) \<Rightarrow>
        (case outputs cs rs1 of (rs2, effs2) \<Rightarrow> (rs2, effs1 @ effs2)))"

definition on_finish :: "('a list option list \<times> js_error option) option \<Rightarrow> 'a ReadableState \<Rightarrow> 'a ReadableState \<times> 'a effect list" where
  "on_finish flush rs =
     (case flush of
        None \<Rightarrow> Transform_done None rs
      | Some (out, er) \<Rightarrow>
          (case outputs out rs of (rs1, effs1) \<Rightarrow>
             (case Transform_done er rs1 of (rs2, effs2) \<Rightarrow> (rs2, effs1 @ effs2))))"

section \<open>The wrapper around an old-style stream\<close>

text \<open>
  \<^verbatim>\<open>Readable.prototype.wrap\<close> closes over the readable state and a local
  \<^verbatim>\<open>paused\<close>; the pair is the wrapper's state. The three functions are the
  \<^verbatim>\<open>'end'\<close> listener, the \<^verbatim>\<open>'data'\<close> listener and the \<^verbatim>\<open>read\<close> that
  replaces the engine's.
\<close>

definition wrap_on_end :: "'a ReadableState \<times> bool \<Rightarrow> ('a ReadableState \<times> bool) \<times> 'a effect list" where
  "wrap_on_end sp =
     (case sp of (state0, paused) \<Rightarrow>
        let state = state0\<lparr>ended := True\<rparr>
        in ((state, paused), if length' state = 0 then [Emit End] else []))"

text \<open>
  The last test of the replaced \<^verbatim>\<open>read\<close> is
  \<^verbatim>\<open>state.length === 0 && ended\<close>. No variable \<^verbatim>\<open>ended\<close> is declared in
  \<^verbatim>\<open>wrap\<close> or in the module, so evaluating the right operand, which happens exactly
  when the left one is true, throws a ReferenceError. The result is the error or the
  returned value, with the state and the effects up to that point.
\<close>

definition wrap_read :: "rat option \<Rightarrow> 'a ReadableState \<times> bool \<Rightarrow> (js_error + 'a list option) \<times> ('a ReadableState \<times> bool) \<times> 'a effect list" where
  "wrap_read n sp =
     (case sp of (state, paused) \<Rightarrow>
        if length' state = 0 then (Inr None, (state\<lparr>needReadable := True\<rparr>, paused), [])
        else
          let n1 = wanted n (length' state)
          in if n1 > length' state \<and> \<not> ended state
             then (Inr None, (state\<lparr>needReadable := True\<rparr>, paused), [])
             else
               (let n2 = (if n1 > length' state then length' state else n1)
                in case fromList (nat \<lfloor>n2\<rfloor>) (buffer state) of (ret, rest) \<Rightarrow>
                     let state1 = state\<lparr>buffer := rest\<rparr>;
                         state2 = state1\<lparr>length' := length' state1 - n2\<rparr>;
                         resume = (length' state2 < lowWaterMark state2 \<and> paused);
                         effs = (if resume then [StreamResume] else []);
                         paused1 = (if resume then False else paused)
                     in if length' state2 = 0
                        then (Inl ReferenceError, (state2, paused1), effs)
                        else (Inr (Some ret), (state2, paused1), effs)))"


text \<open>
  The \<^verbatim>\<open>'data'\<close> listener emits \<^verbatim>\<open>'readable'\<close> before it tests whether to pause, so
  a listener that reads inside that emit acts in between: \<open>during\<close> lists the sizes of
  the reads made there, and an error thrown by one of them leaves the handler.
\<close>

fun wrap_reads :: "rat option list \<Rightarrow> 'a ReadableState \<times> bool \<Rightarrow> js_error option \<times> ('a ReadableState \<times> bool) \<times> 'a effect list" where
  "wrap_reads [] sp = (None, sp, [])"
| "wrap_reads (n # ns) sp =
     (case wrap_read n sp of
        (Inl e, sp1, effs) \<Rightarrow> (Some e, sp1, effs)
      | (Inr ret, sp1, effs) \<Rightarrow>
          (case wrap_reads ns sp1 of (r, sp2, effs2) \<Rightarrow> (r, sp2, effs @ effs2)))"

definition wrap_on_data :: "'a list \<Rightarrow> rat option list \<Rightarrow> 'a ReadableState \<times> bool \<Rightarrow> js_error option \<times> ('a ReadableState \<times> bool) \<times> 'a effect list" where
  "wrap_on_data chunk during sp =
     (case sp of (state0, paused0) \<Rightarrow>
        let state1 = state0\<lparr>buffer := buffer state0 @ [chunk]\<rparr>;
            state2 = state1\<lparr>length' := length' state1 + of_nat (length chunk)\<rparr>
        in (case wrap_reads during (state2, paused0) of
              (Some e, sp1, effs) \<Rightarrow> (Some e, sp1, Emit Readable # effs)
            | (None, (state, paused), effs) \<Rightarrow>
                if length' state > lowWaterMark state \<and> \<not> paused
                then (None, (state, True), Emit Readable # effs @ [StreamPause])
                else (None, (state, paused), Emit Readable # effs)))"

section \<open>A stream among its producer, its sinks and the deferred-task queue\<close>

text \<open>
  \<^verbatim>\<open>pipe\<close>, \<^verbatim>\<open>flow\<close> and \<^verbatim>\<open>unpipe\<close> work through listeners and
  \<^verbatim>\<open>process.nextTick\<close>, so they are modelled on a record of everything they touch:
  the readable state of the source, the \<^verbatim>\<open>_read\<close> calls the producer has yet to
  answer and the answers it will give, the queue of deferred tasks, the listeners the
  code registers, and the sinks.

  A sink is an external \<^verbatim>\<open>Writable\<close>: \<^verbatim>\<open>write(chunk)\<close> takes the chunk and answers
  whether it was accepted, \<^verbatim>\<open>end()\<close> is counted. The answers a sink will give to its
  coming writes are listed in \<open>answers\<close>; once the list is used up it accepts.
\<close>

record PipeOpts =
  opt_end :: "bool option"
  chunkSize :: "rat option"

datatype task = TFlow PipeOpts | TEmitEnd

datatype sink_event = PipeEv | UnpipeEv

record 'a SinkState =
  written :: "'a list list"
  end_calls :: nat
  answers :: "bool list"
  notified :: "sink_event list"

text \<open>
  \<open>readable_ls\<close>: the \<^verbatim>\<open>src.once('readable', flow.bind(null, src, pipeOpts))\<close>
  listeners, each known by its options. \<open>end_ls\<close>: the \<^verbatim>\<open>src.once('end', onend)\<close>
  listeners; every call of \<^verbatim>\<open>pipe\<close> makes a new closure \<^verbatim>\<open>onend\<close>, known by
  a fresh number, that ends its destination. \<open>unpipe_ls\<close>: the
  \<^verbatim>\<open>dest.on('unpipe', ...)\<close> listeners, each with the destination it sits on and the
  \<^verbatim>\<open>onend\<close> it removes. \<open>drain_ls\<close>: the \<^verbatim>\<open>dest.once('drain', ondrain)\<close>
  listeners; \<^verbatim>\<open>ondrain\<close> belongs to one invocation of \<^verbatim>\<open>flow\<close>, whose local
  \<^verbatim>\<open>needDrain\<close> is \<open>needDrain w call\<close>. \<open>thrown\<close>: an exception that has left the
  running callback uncaught.
\<close>

record 'a world =
  state :: "'a ReadableState"
  script :: "(js_error option \<times> 'a list option) list"
  pending :: nat
  ticks :: "task list"
  readable_ls :: "PipeOpts list"
  end_ls :: "(nat \<times> dest) list"
  unpipe_ls :: "(dest \<times> nat) list"
  drain_ls :: "(dest \<times> nat \<times> PipeOpts) list"
  needDrain :: "nat \<Rightarrow> int"
  next_id :: nat
  sinks :: "dest \<Rightarrow> 'a SinkState"
  emitted :: "'a event list"
  thrown :: "js_error option"

definition sink_write :: "'a list \<Rightarrow> 'a SinkState \<Rightarrow> bool \<times> 'a SinkState" where
  "sink_write chunk k =
     (case answers k of
        [] \<Rightarrow> (True, k\<lparr>written := written k @ [chunk]\<rparr>)
      | a # rest \<Rightarrow> (a, k\<lparr>written := written k @ [chunk], answers := rest\<rparr>))"

definition sink_end :: "'a SinkState \<Rightarrow> 'a SinkState" where
  "sink_end k = k\<lparr>end_calls := end_calls k + 1\<rparr>"

definition sink_notify :: "sink_event \<Rightarrow> 'a SinkState \<Rightarrow> 'a SinkState" where
  "sink_notify ev k = k\<lparr>notified := notified k @ [ev]\<rparr>"

text \<open>
  The effects of \<^verbatim>\<open>read\<close> on the world: a call of \<^verbatim>\<open>_read\<close> is one more request
  for the producer to answer, a deferred emit joins the task queue.
\<close>

fun schedule :: "'a effect \<Rightarrow> 'a world \<Rightarrow> 'a world" where
  "schedule (CallRead n) w = w\<lparr>pending := pending w + 1\<rparr>"
| "schedule NextTickEmitEnd w = w\<lparr>ticks := ticks w @ [TEmitEnd]\<rparr>"
| "schedule (Emit ev) w = w\<lparr>emitted := emitted w @ [ev]\<rparr>"
| "schedule StreamPause w = w"
| "schedule StreamResume w = w"

definition src_read :: "rat option \<Rightarrow> 'a world \<Rightarrow> 'a list option \<times> 'a world" where
  "src_read n w =
     (case read n (state w) of (ret, st, effs) \<Rightarrow> (ret, fold schedule effs (w\<lparr>state := st\<rparr>)))"

text \<open>The body of \<^verbatim>\<open>state.pipes.forEach\<close> in \<^verbatim>\<open>flow\<close>, for one destination.\<close>

definition deliver :: "'a list \<Rightarrow> nat \<Rightarrow> PipeOpts \<Rightarrow> 'a world \<Rightarrow> dest \<Rightarrow> 'a world" where
  "deliver chunk call pipeOpts w d =
     (case sink_write chunk (sinks w d) of (accepted, k) \<Rightarrow>
        let w1 = w\<lparr>sinks := (sinks w)(d := k)\<rparr>
        in if accepted then w1
           else w1\<lparr>needDrain := (needDrain w1)(call := needDrain w1 call + 1),
                   drain_ls := drain_ls w1 @ [(d, call, pipeOpts)]\<rparr>)"

text \<open>
  What follows the \<^verbatim>\<open>while\<close> loop of \<^verbatim>\<open>flow\<close>. With no destination left the code
  clears \<^verbatim>\<open>flowing\<close> and evaluates \<^verbatim>\<open>this.listeners('data')\<close>; \<^verbatim>\<open>flow\<close> is only
  ever called as a plain function or bound to \<^verbatim>\<open>null\<close>, in strict mode, so that is a
  TypeError. Otherwise the loop ran out of data and re-arms on \<^verbatim>\<open>'readable'\<close>.
\<close>

definition flow_rest :: "PipeOpts \<Rightarrow> 'a world \<Rightarrow> 'a world" where
  "flow_rest pipeOpts w =
     (if pipes (state w) = []
      then w\<lparr>state := (state w)\<lparr>flowing := False\<rparr>, thrown := Some TypeError\<rparr>
      else w\<lparr>readable_ls := readable_ls w @ [pipeOpts]\<rparr>)"

text \<open>
  The \<^verbatim>\<open>while\<close> loop of \<^verbatim>\<open>flow\<close>, for the invocation \<open>call\<close>, followed by the
  rest of the function. No listener of \<^verbatim>\<open>'data'\<close> is part of the world (registering
  one switches the stream to the old mode, which is not modelled), so
  \<^verbatim>\<open>src.emit('data', chunk)\<close> only records the event.
\<close>

function flow_loop :: "nat \<Rightarrow> PipeOpts \<Rightarrow> 'a world \<Rightarrow> 'a world" where
  "flow_loop call pipeOpts w =
     (if pipes (state w) = [] then flow_rest pipeOpts w
      else
        (case src_read (chunkSize pipeOpts) w of
           (None, w1) \<Rightarrow> flow_rest pipeOpts w1
         | (Some chunk, w1) \<Rightarrow>
             (let w2 = foldl (deliver chunk call pipeOpts) w1 (pipes (state w1));
                  w3 = w2\<lparr>emitted := emitted w2 @ [Data chunk]\<rparr>
              in if needDrain w3 call > 0 then w3 else flow_loop call pipeOpts w3)))"
  by pat_completeness auto

text \<open>
  The loop ends: a turn that goes on has either emptied the buffer or taken the chunk
  size of the options, a positive number, out of it, and writing to the sinks leaves
  the readable state alone. The number of such sizes that fit into the buffered size
  goes down.
\<close>

definition stride :: "rat option \<Rightarrow> rat" where
  "stride n = (case n of None \<Rightarrow> 1 | Some k \<Rightarrow> if 0 < k then k else 1)"

lemma read_Some_takes:
  "read n s = (Some c, s', effs) \<Longrightarrow>
   0 < length' s \<and> (length' s' = 0 \<or> (stride n \<le> length' s \<and> length' s' = length' s - stride n))"
  by (auto simp: read_def wanted_def stride_def Let_def split: if_splits option.splits)

lemma stride_pos: "0 < stride n"
  by (simp add: stride_def split: option.splits)

lemma state_schedule: "state (schedule eff w) = state w"
  by (cases eff) simp_all

lemma state_fold_schedule: "state (fold schedule effs w) = state w"
  by (induction effs arbitrary: w) (simp_all add: state_schedule)

lemma state_deliver: "state (deliver chunk call pipeOpts w d) = state w"
  by (simp add: deliver_def Let_def split: prod.splits)

lemma state_foldl_deliver: "state (foldl (deliver chunk call pipeOpts) w ds) = state w"
  by (induction ds arbitrary: w) (simp_all add: state_deliver)

lemma fits_decreases:
  fixes l k :: rat
  assumes "0 < k" and "0 < l" and "l' = 0 \<or> (k \<le> l \<and> l' = l - k)"
  shows "nat \<lceil>l' / k\<rceil> < nat \<lceil>l / k\<rceil>"
proof -
  from assms(1,2) have "0 < l / k" by simp
  then have one: "1 \<le> \<lceil>l / k\<rceil>" by (simp add: less_ceiling_iff [symmetric])
  from assms(3) show ?thesis
  proof
    assume "l' = 0"
    with one show ?thesis by simp
  next
    assume "k \<le> l \<and> l' = l - k"
    with assms(1) have "l' / k = l / k - 1" by (simp add: diff_divide_distrib)
    then have "\<lceil>l' / k\<rceil> = \<lceil>l / k\<rceil> - 1" by simp
    with one show ?thesis by simp
  qed
qed

lemma src_read_Some_decreases:
  assumes "src_read n w = (Some c, w1)"
  shows "nat \<lceil>length' (state w1) / stride n\<rceil> < nat \<lceil>length' (state w) / stride n\<rceil>"
proof -
  obtain ret st effs where r: "read n (state w) = (ret, st, effs)"
    by (cases "read n (state w)") auto
  with assms have "ret = Some c" and "state w1 = st"
    by (auto simp: src_read_def state_fold_schedule)
  with r read_Some_takes [of n "state w" c st effs] show ?thesis
    by (intro fits_decreases) (auto simp: stride_pos)
qed

termination flow_loop
proof (relation "measure (\<lambda>(call, pipeOpts, w). nat \<lceil>length' (state w) / stride (chunkSize pipeOpts)\<rceil>)",
    goal_cases)
  case 1
  show ?case by simp
next
  case (2 call pipeOpts w x1 x2 chunk w2 w3)
  then show ?case
    using src_read_Some_decreases [of "chunkSize pipeOpts" w chunk x2]
    by (simp add: state_foldl_deliver)
qed

text \<open>
  \<^verbatim>\<open>flow(src, pipeOpts)\<close>: a new invocation, with its own \<^verbatim>\<open>needDrain = 0\<close>.
\<close>

definition flow :: "PipeOpts \<Rightarrow> 'a world \<Rightarrow> 'a world" where
  "flow pipeOpts w =
     (let call = next_id w
      in flow_loop call pipeOpts
           (w\<lparr>next_id := call + 1, needDrain := (needDrain w)(call := 0)\<rparr>))"

text \<open>
  \<^verbatim>\<open>ondrain\<close> of the invocation \<open>call\<close>.
\<close>

definition ondrain :: "nat \<Rightarrow> PipeOpts \<Rightarrow> 'a world \<Rightarrow> 'a world" where
  "ondrain call pipeOpts w =
     (let w1 = w\<lparr>needDrain := (needDrain w)(call := needDrain w call - 1)\<rparr>
      in if needDrain w1 call = 0 then flow pipeOpts w1 else w1)"

text \<open>
  Emitting an event calls the listeners registered when the emit starts, in the order
  of registration; a \<^verbatim>\<open>once\<close> listener is taken off just before it is called; an
  exception thrown by a listener leaves the emit, so that the later ones are not called.
\<close>

definition emit_readable :: "'a world \<Rightarrow> 'a world" where
  "emit_readable w =
     foldl (\<lambda>w1 pipeOpts.
              if thrown w1 = None
              then flow pipeOpts (w1\<lparr>readable_ls := remove1 pipeOpts (readable_ls w1)\<rparr>)
              else w1)
       (w\<lparr>emitted := emitted w @ [Readable]\<rparr>) (readable_ls w)"

text \<open>\<^verbatim>\<open>onend\<close> is \<^verbatim>\<open>dest.end()\<close>.\<close>

definition emit_end :: "'a world \<Rightarrow> 'a world" where
  "emit_end w =
     foldl (\<lambda>w1 l.
              w1\<lparr>end_ls := remove1 l (end_ls w1),
                  sinks := (sinks w1)(snd l := sink_end (sinks w1 (snd l)))\<rparr>)
       (w\<lparr>emitted := emitted w @ [End]\<rparr>) (end_ls w)"

definition emit_drain :: "dest \<Rightarrow> 'a world \<Rightarrow> 'a world" where
  "emit_drain d w =
     foldl (\<lambda>w1 l.
              if thrown w1 = None
              then ondrain (fst (snd l)) (snd (snd l)) (w1\<lparr>drain_ls := remove1 l (drain_ls w1)\<rparr>)
              else w1)
       w (filter (\<lambda>l. fst l = d) (drain_ls w))"

text \<open>
  The listener \<^verbatim>\<open>pipe\<close> puts on \<^verbatim>\<open>'unpipe'\<close> compares the stream that unpipes
  with its own \<^verbatim>\<open>src\<close>; the world holds one source, so the two are the same whenever
  this source emits the event, and the listener removes its \<^verbatim>\<open>onend\<close> from the
  \<^verbatim>\<open>'end'\<close> listeners.
\<close>

definition removeListener_end :: "nat \<Rightarrow> (nat \<times> dest) list \<Rightarrow> (nat \<times> dest) list" where
  "removeListener_end i ls = (case find (\<lambda>l. fst l = i) ls of None \<Rightarrow> ls | Some l \<Rightarrow> remove1 l ls)"

definition emit_unpipe :: "dest \<Rightarrow> 'a world \<Rightarrow> 'a world" where
  "emit_unpipe d w =
     foldl (\<lambda>w1 l. w1\<lparr>end_ls := removeListener_end (snd l) (end_ls w1)\<rparr>)
       (w\<lparr>sinks := (sinks w)(d := sink_notify UnpipeEv (sinks w d))\<rparr>)
       (filter (\<lambda>l. fst l = d) (unpipe_ls w))"

text \<open>
  The effects of \<^verbatim>\<open>onread\<close> on the world. An \<^verbatim>\<open>'error'\<close> event is recorded.
\<close>

fun perform :: "'a effect \<Rightarrow> 'a world \<Rightarrow> 'a world" where
  "perform (Emit Readable) w = emit_readable w"
| "perform (Emit End) w = emit_end w"
| "perform eff w = schedule eff w"

text \<open>\<^verbatim>\<open>Readable.prototype.pipe(dest, pipeOpts)\<close>; a missing \<open>pipeOpts\<close> is \<^verbatim>\<open>{}\<close>.\<close>

definition pipe :: "dest \<Rightarrow> PipeOpts option \<Rightarrow> 'a world \<Rightarrow> 'a world" where
  "pipe d given w =
     (let pipeOpts = (case given of None \<Rightarrow> \<lparr>opt_end = None, chunkSize = None\<rparr> | Some p \<Rightarrow> p);
          w1 = w\<lparr>state := (state w)\<lparr>pipes := pipes (state w) @ [d]\<rparr>\<rparr>;
          w2 = (if opt_end pipeOpts \<noteq> Some False \<and> d \<noteq> Stdout \<and> d \<noteq> Stderr
                then w1\<lparr>end_ls := end_ls w1 @ [(next_id w1, d)],
                        unpipe_ls := unpipe_ls w1 @ [(d, next_id w1)],
                        next_id := next_id w1 + 1\<rparr>
                else w1);
          w3 = w2\<lparr>sinks := (sinks w2)(d := sink_notify PipeEv (sinks w2 d))\<rparr>
      in if \<not> flowing (state w3) then w3\<lparr>ticks := ticks w3 @ [TFlow pipeOpts]\<rparr> else w3)"

text \<open>
  \<^verbatim>\<open>Readable.prototype.unpipe(dest)\<close>: without \<open>dest\<close> every destination is told and
  the list is emptied; with one, it is told and taken out if it is in the list
  (\<^verbatim>\<open>indexOf\<close> and \<^verbatim>\<open>splice\<close>: its first occurrence).
\<close>

definition unpipe :: "dest option \<Rightarrow> 'a world \<Rightarrow> 'a world" where
  "unpipe given w =
     (case given of
        None \<Rightarrow>
          (let w1 = foldl (\<lambda>w1 d. emit_unpipe d w1) w (pipes (state w))
           in w1\<lparr>state := (state w1)\<lparr>pipes := []\<rparr>\<rparr>)
      | Some d \<Rightarrow>
          if d \<in> set (pipes (state w))
          then (let w1 = emit_unpipe d w
                in w1\<lparr>state := (state w1)\<lparr>pipes := remove1 d (pipes (state w1))\<rparr>\<rparr>)
          else w)"

text \<open>
  What can happen next: a call from the user (\<^verbatim>\<open>pipe\<close>, \<^verbatim>\<open>unpipe\<close>,
  \<^verbatim>\<open>read\<close>), the next deferred task, the producer answering its oldest open request
  with the next entry of its script (end of data once the script is used up), or a sink
  emitting \<^verbatim>\<open>'drain'\<close>. Nothing happens after an uncaught exception.
\<close>

datatype action = Pipe dest "PipeOpts option" | Unpipe "dest option" | ReadCall "rat option"
  | Tick | Reply | Drain dest

definition run_task :: "task \<Rightarrow> 'a world \<Rightarrow> 'a world" where
  "run_task t w = (case t of TFlow pipeOpts \<Rightarrow> flow pipeOpts w | TEmitEnd \<Rightarrow> emit_end w)"

definition reply :: "'a world \<Rightarrow> 'a world" where
  "reply w =
     (if pending w = 0 then w
      else
        (case (case script w of [] \<Rightarrow> (None, None) | r # rest \<Rightarrow> r) of (er, chunk) \<Rightarrow>
           (case onread er chunk (state w) of (st, effs) \<Rightarrow>
              fold perform effs (w\<lparr>state := st, pending := pending w - 1, script := tl (script w)\<rparr>))))"

definition step :: "action \<Rightarrow> 'a world \<Rightarrow> 'a world" where
  "step a w =
     (if thrown w \<noteq> None then w
      else
        (case a of
           Pipe d given \<Rightarrow> pipe d given w
         | Unpipe given \<Rightarrow> unpipe given w
         | ReadCall n \<Rightarrow> snd (src_read n w)
         | Tick \<Rightarrow> (case ticks w of [] \<Rightarrow> w | t # rest \<Rightarrow> run_task t (w\<lparr>ticks := rest\<rparr>))
         | Reply \<Rightarrow> reply w
         | Drain d \<Rightarrow> emit_drain d w))"

definition run :: "action list \<Rightarrow> 'a world \<Rightarrow> 'a world" where
  "run as w = fold step as w"

text \<open>
  A new source: the state the constructor makes, a producer with the given script, and
  sinks that have seen nothing and will answer as given.
\<close>

definition fresh_sink :: "bool list \<Rightarrow> 'a SinkState" where
  "fresh_sink as = \<lparr>written = [], end_calls = 0, answers = as, notified = []\<rparr>"

definition new_world :: "Options \<Rightarrow> (js_error option \<times> 'a list option) list \<Rightarrow> (dest \<Rightarrow> bool list) \<Rightarrow> 'a world" where
  "new_world options replies will_answer =
     \<lparr> state = ReadableState options,
       script = replies,
       pending = 0,
       ticks = [],
       readable_ls = [],
       end_ls = [],
       unpipe_ls = [],
       drain_ls = [],
       needDrain = (\<lambda>call. 0),
       next_id = 0,
       sinks = (\<lambda>d. fresh_sink (will_answer d)),
       emitted = [],
       thrown = None \<rparr>"

section \<open>Sequences of operations on one readable state\<close>



definition consistent :: "'a ReadableState \<Rightarrow> bool" where
  "consistent s = (length' s = of_int (queued (buffer s)))"



section \<open>Concrete streams\<close>

text \<open>
  Streams and runs that the theorems below are evaluated on. A stream made with no
  options has a \<^verbatim>\<open>bufferSize\<close> of 16384 and a \<^verbatim>\<open>lowWaterMark\<close> of 1024.
\<close>

definition default_options :: Options where
  "default_options = \<lparr>opt_bufferSize = None, opt_lowWaterMark = None\<rparr>"

definition x200 :: "char list" where
  "x200 = replicate 200 CHR ''x''"

definition x1224 :: "char list" where
  "x1224 = replicate 1224 CHR ''x''"

text \<open>
  200 units buffered, no request flagged: a transform has put out 200 units.
\<close>

definition idle_200 :: "char ReadableState" where
  "idle_200 = fst (Transform_output (Some x200) (ReadableState default_options))"

text \<open>
  200 units buffered, a request flagged: the producer has answered a first read with
  1224 units, and a read of 1024 has brought the buffer under the low-water mark and
  pulled again.
\<close>

definition busy_200 :: "char world" where
  "busy_200 = run [ReadCall None, Reply, ReadCall (Some 1024)]
                (new_world default_options [(None, Some x1224)] (\<lambda>d. []))"

text \<open>
  Options with a low-water mark of one unit: no chunk is too small to stop the
  prefetching.
\<close>

definition low_mark :: Options where
  "low_mark = \<lparr>opt_bufferSize = None, opt_lowWaterMark = Some 1\<rparr>"

text \<open>A producer with one chunk to give.\<close>

definition one_chunk :: "char world" where
  "one_chunk = new_world default_options [(None, Some ''ab'')] (\<lambda>d. [])"

text \<open>A stream whose producer had nothing: ended, with an empty buffer.\<close>

definition drained_world :: "char world" where
  "drained_world = run [ReadCall None, Reply] (new_world default_options [] (\<lambda>d. []))"

text \<open>
  A source of two chunks piped into one sink that accepts every write, run until no
  deferred task and no request to the producer is left.
\<close>

definition one_sink_done :: "char world" where
  "one_sink_done = run [Pipe (Sink 0) None, Tick, Reply, Reply, Reply]
     (new_world low_mark [(None, Some ''ab''), (None, Some ''cd'')] (\<lambda>d. []))"

text \<open>
  A source of two chunks piped into two sinks, of which the first refuses its first
  write; the run stops after the first chunk has gone out.
\<close>

definition two_sinks_stalled :: "char world" where
  "two_sinks_stalled = run [Pipe (Sink 0) None, Pipe (Sink 1) None, Tick, Tick, Reply]
     (new_world low_mark [(None, Some ''ab''), (None, Some ''cd'')]
        (\<lambda>d. if d = Sink 0 then [False] else []))"

text \<open>A transform that has put out one chunk while no consumer was waiting.\<close>

definition tail_state :: "char ReadableState" where
  "tail_state = fst (Transform_output (Some ''tail'') (ReadableState default_options))"

text \<open>
  A wrapper whose old-style stream has sent one chunk and then its \<^verbatim>\<open>'end'\<close>, with
  nothing read in between.
\<close>

definition wrapped_ab :: "char ReadableState \<times> bool" where
  "wrapped_ab = fst (wrap_on_end (fst (snd (wrap_on_data ''ab'' [] (ReadableState default_options, False)))))"

text \<open>
  A source piped into a sink, into the standard output, and into a second sink with
  \<^verbatim>\<open>{end: false}\<close>.
\<close>

definition three_piped :: "char world" where
  "three_piped = run [Pipe (Sink 0) None, Pipe Stdout None,
                      Pipe (Sink 1) (Some \<lparr>opt_end = Some False, chunkSize = None\<rparr>)]
     (new_world default_options [] (\<lambda>d. []))"

text \<open>
  The \<^verbatim>\<open>end\<close> option of \<^verbatim>\<open>pipe\<close> is not set to \<^verbatim>\<open>false\<close>; how often a
  listener number occurs among the listeners of \<^verbatim>\<open>'end'\<close>.
\<close>

definition wants_end :: "PipeOpts option \<Rightarrow> bool" where
  "wants_end given = (case given of None \<Rightarrow> True | Some p \<Rightarrow> opt_end p \<noteq> Some False)"

definition occurs :: "nat \<Rightarrow> (nat \<times> dest) list \<Rightarrow> nat" where
  "occurs i ls = length (filter (\<lambda>l. fst l = i) ls)"

text \<open>
  What every step other than \<^verbatim>\<open>pipe\<close> and \<^verbatim>\<open>unpipe\<close> leaves of a world, as far
  as the listener \<open>i\<close> of \<^verbatim>\<open>'end'\<close> goes: the \<^verbatim>\<open>'unpipe'\<close> listeners and the
  destinations stay, numbers already given out are not given out again, and \<open>i\<close> is not
  registered anew.
\<close>

definition keeps :: "nat \<Rightarrow> 'a world \<Rightarrow> 'a world \<Rightarrow> bool" where
  "keeps i w w' =
     (unpipe_ls w' = unpipe_ls w \<and> pipes (state w') = pipes (state w) \<and> next_id w \<le> next_id w'
      \<and> occurs i (end_ls w') \<le> occurs i (end_ls w))"

text \<open>
  The state of the listener \<open>i\<close> that a call of \<^verbatim>\<open>pipe\<close> to \<open>d\<close> has made: its
  \<^verbatim>\<open>'unpipe'\<close> listener sits on \<open>d\<close>, its number is used up, it is registered at most
  once, and as long as it is registered \<open>d\<close> is among the destinations.
\<close>

definition attached :: "nat \<Rightarrow> dest \<Rightarrow> 'a world \<Rightarrow> bool" where
  "attached i d w =
     ((d, i) \<in> set (unpipe_ls w) \<and> occurs i (end_ls w) \<le> 1 \<and> i < next_id w
      \<and> (occurs i (end_ls w) = 0 \<or> d \<in> set (pipes (state w))))"

section \<open>Properties of the read engine\<close>

lemma queued_Nil: "queued [] = 0"
  by (simp add: queued_def)

lemma queued_Cons: "queued (c # cs) = int (length c) + queued cs"
  by (simp add: queued_def)


lemma queued_nonneg: "0 \<le> queued cs"
  by (induction cs) (simp_all add: queued_Nil queued_Cons)

lemma queued_concat: "queued cs = int (length (concat cs))"
  by (induction cs) (simp_all add: queued_Nil queued_Cons)


lemma fromList_data: "fst (fromList n cs) = take n (concat cs)"
proof (induction n cs rule: fromList.induct)
  case (1 n)
  then show ?case by simp
next
  case (2 n c cs)
  then show ?case by (auto split: prod.splits)
qed

text \<open>The three ways through \<^verbatim>\<open>read\<close>.\<close>

lemma read_at_end:
  "length' s = 0 \<and> ended s \<Longrightarrow> read n s = (None, s, [NextTickEmitEnd])"
  by (simp add: read_def)

lemma read_with:
  assumes "\<not> (length' s = 0 \<and> ended s)"
    and d: "later = (wanted n (length' s) > length' s \<and> \<not> ended s \<and> length' s < lowWaterMark s)"
    and k: "k = (if wanted n (length' s) > length' s then (if later then 0 else length' s)
                 else wanted n (length' s))"
  shows "read n s =
     (let state1 = (if later then s\<lparr>needReadable := True\<rparr> else s);
          taken = (if k > 0 then Some (fromList (nat \<lfloor>k\<rfloor>) (buffer state1)) else None);
          ret = map_option fst taken;
          state2 = (case taken of None \<Rightarrow> state1 | Some (d, rest) \<Rightarrow> state1\<lparr>buffer := rest\<rparr>);
          state3 = (if ret = None \<or> ret = Some [] then state2\<lparr>needReadable := True\<rparr> else state2);
          state4 = state3\<lparr>length' := length' state3 - k\<rparr>
      in if \<not> ended state4 \<and> length' state4 < lowWaterMark state4 \<and> \<not> reading state4
         then (ret, state4\<lparr>reading := True\<rparr>, [CallRead (bufferSize state4)])
         else (ret, state4, []))"
proof -
  have "read n s =
     (let n1 = wanted n (length' s);
            defer = (n1 > length' s \<and> \<not> ended s \<and> length' s < lowWaterMark s);
            state1 = (if defer then s\<lparr>needReadable := True\<rparr> else s);
            n2 = (if n1 > length' s then (if defer then 0 else length' s) else n1);
            taken = (if n2 > 0 then Some (fromList (nat \<lfloor>n2\<rfloor>) (buffer state1)) else None);
            ret = map_option fst taken;
            state2 = (case taken of None \<Rightarrow> state1 | Some (d, rest) \<Rightarrow> state1\<lparr>buffer := rest\<rparr>);
            state3 = (if ret = None \<or> ret = Some [] then state2\<lparr>needReadable := True\<rparr> else state2);
            state4 = state3\<lparr>length' := length' state3 - n2\<rparr>
        in if \<not> ended state4 \<and> length' state4 < lowWaterMark state4 \<and> \<not> reading state4
           then (ret, state4\<lparr>reading := True\<rparr>, [CallRead (bufferSize state4)])
           else (ret, state4, []))"
    unfolding read_def using assms(1) by (rule if_not_P)
  then show ?thesis
    unfolding Let_def d k .
qed

lemma read_defer:
  assumes "\<not> ended s" and "length' s < lowWaterMark s" and "wanted n (length' s) > length' s"
  shows "read n s =
     (None, s\<lparr>needReadable := True, reading := True\<rparr>,
      if reading s then [] else [CallRead (bufferSize s)])"
  using assms by (subst read_with [where later = True and k = "0"]) (simp_all add: Let_def)

lemma read_take:
  assumes "\<not> (length' s = 0 \<and> ended s)"
    and "\<not> (wanted n (length' s) > length' s \<and> \<not> ended s \<and> length' s < lowWaterMark s)"
    and "k = (if wanted n (length' s) > length' s then length' s else wanted n (length' s))"
    and "0 < k"
  shows "fst (read n s) = Some (fst (fromList (nat \<lfloor>k\<rfloor>) (buffer s)))"
    and "buffer (fst (snd (read n s))) = snd (fromList (nat \<lfloor>k\<rfloor>) (buffer s))"
    and "length' (fst (snd (read n s))) = length' s - k"
  using assms by (simp_all add: read_with [where later = False and k = k] Let_def split: prod.splits)

lemma read_nothing:
  assumes "\<not> (length' s = 0 \<and> ended s)"
    and "\<not> (wanted n (length' s) > length' s \<and> \<not> ended s \<and> length' s < lowWaterMark s)"
    and "k = (if wanted n (length' s) > length' s then length' s else wanted n (length' s))"
    and "\<not> 0 < k"
  shows "fst (read n s) = None"
    and "buffer (fst (snd (read n s))) = buffer s"
    and "length' (fst (snd (read n s))) = length' s - k"
  using assms by (simp_all add: read_with [where later = False and k = k] Let_def split: prod.splits)
















text \<open>The two streams with 200 units buffered, and the requests open on the second.\<close>

lemma busy_200_state:
  "state busy_200 = \<lparr>bufferSize = 16384, lowWaterMark = 1024, buffer = [x200], length' = 200,
     pipes = [], flowing = False, ended = False, reading = True, needReadable = False\<rparr>"
  by (simp add: busy_200_def run_def step_def src_read_def read_def wanted_def reply_def
      onread_def emit_readable_def new_world_def ReadableState_def default_options_def
      or_default_def toInt32_def x1224_def x200_def Let_def)

lemma idle_200_state:
  "idle_200 = \<lparr>bufferSize = 16384, lowWaterMark = 1024, buffer = [x200], length' = 200,
     pipes = [], flowing = False, ended = False, reading = False, needReadable = False\<rparr>"
  by (simp add: idle_200_def Transform_output_def ReadableState_def default_options_def
      or_default_def toInt32_def x200_def)

lemma busy_200_pending: "pending busy_200 = 1 \<and> pending (step (ReadCall (Some 1000)) busy_200) = 1"
  by (simp add: busy_200_def run_def step_def src_read_def read_def wanted_def reply_def
      onread_def emit_readable_def new_world_def ReadableState_def default_options_def
      or_default_def toInt32_def x1224_def x200_def Let_def)

text \<open>
  C2, as the claim states it, fails: with 200 units buffered, a low-water mark of 1024
  and the stream not ended, \<^verbatim>\<open>read(1000)\<close> returns nothing and marks the consumer as
  waiting, but pulls nothing when a request is already flagged; one request is open
  before the call and one after it.
\<close>

theorem no_pull_while_reading:
  "\<not> ended (state busy_200) \<and> length' (state busy_200) = 200 \<and> lowWaterMark (state busy_200) = 1024
   \<and> read (Some 1000) (state busy_200) = (None, (state busy_200)\<lparr>needReadable := True\<rparr>, [])
   \<and> pending busy_200 = 1 \<and> pending (step (ReadCall (Some 1000)) busy_200) = 1"
  by (simp add: busy_200_state busy_200_pending read_def wanted_def Let_def)

text \<open>
  C2, amended. On a stream whose recorded size is that of its queue, a read of more than
  is buffered: if the stream is not ended and holds less than the low-water mark, returns
  nothing, marks the consumer as waiting, leaves buffer and recorded size alone, and
  pulls once if no request is flagged and not at all if one is; otherwise (ended, or at
  or above the mark) it returns everything that is buffered, which is nothing when the
  buffer is empty.
\<close>

theorem read_beyond_buffer:
  assumes "consistent s" and "length' s < n"
  shows "(\<not> ended s \<and> length' s < lowWaterMark s \<longrightarrow>
            read (Some n) s = (None, s\<lparr>needReadable := True, reading := True\<rparr>,
                               if reading s then [] else [CallRead (bufferSize s)]))
       \<and> (ended s \<or> lowWaterMark s \<le> length' s \<longrightarrow>
            fst (read (Some n) s) = (if length' s = 0 then None else Some (concat (buffer s))))"
proof -
  have nn: "0 \<le> length' s"
    using assms(1) queued_nonneg [of "buffer s"] by (simp add: consistent_def)
  with assms(2) have w: "wanted (Some n) (length' s) = n"
    by (simp add: wanted_def)
  have first: "read (Some n) s = (None, s\<lparr>needReadable := True, reading := True\<rparr>,
                               if reading s then [] else [CallRead (bufferSize s)])"
    if "\<not> ended s \<and> length' s < lowWaterMark s"
    using that assms(2) w by (simp add: read_defer)
  have second: "fst (read (Some n) s) = (if length' s = 0 then None else Some (concat (buffer s)))"
    if other: "ended s \<or> lowWaterMark s \<le> length' s"
  proof (cases "length' s = 0")
    case True
    show ?thesis
    proof (cases "ended s")
      case True
      with \<open>length' s = 0\<close> show ?thesis by (simp add: read_at_end)
    next
      case False
      with other True assms(2) w
      have "fst (read (Some n) s) = None"
        by (intro read_nothing(1) [where k = "length' s"]) auto
      with True show ?thesis by simp
    qed
  next
    case False
    with nn have pos: "0 < length' s" by simp
    have "fst (read (Some n) s) = Some (fst (fromList (nat \<lfloor>length' s\<rfloor>) (buffer s)))"
      using other pos assms(2) w by (intro read_take(1)) auto
    moreover have "take (nat \<lfloor>length' s\<rfloor>) (concat (buffer s)) = concat (buffer s)"
      using assms(1) by (simp add: consistent_def queued_concat)
    ultimately show ?thesis using False by (simp add: fromList_data)
  qed
  from first second show ?thesis by blast
qed

theorem read_beyond_buffer_witness:
  "read (Some 1000) idle_200
     = (None, idle_200\<lparr>needReadable := True, reading := True\<rparr>, [CallRead 16384])
   \<and> fst (read (Some 1000) (idle_200\<lparr>ended := True\<rparr>)) = Some x200"
proof -
  have c: "consistent idle_200" "consistent (idle_200\<lparr>ended := True\<rparr>)"
    by (simp_all add: idle_200_state consistent_def queued_def x200_def)
  have l: "length' idle_200 < 1000" "length' (idle_200\<lparr>ended := True\<rparr>) < 1000"
    by (simp_all add: idle_200_state)
  from read_beyond_buffer [OF c(1) l(1)] read_beyond_buffer [OF c(2) l(2)]
  show ?thesis by (simp add: idle_200_state)
qed

section \<open>Properties of the transform and of the wrapper\<close>

text \<open>
  C9. \<^verbatim>\<open>_output\<close> called with a falsy chunk or with a chunk of length zero changes
  nothing (buffer, recorded size and waiting flag are those of before) and raises no
  notification.
\<close>

theorem Transform_output_empty:
  "Transform_output None rs = (rs, []) \<and> Transform_output (Some []) rs = (rs, [])"
  by (simp add: Transform_output_def)

lemma tail_state_eq:
  "tail_state = \<lparr>bufferSize = 16384, lowWaterMark = 1024, buffer = [''tail''], length' = 4,
     pipes = [], flowing = False, ended = False, reading = False, needReadable = False\<rparr>"
  by (simp add: tail_state_def Transform_output_def ReadableState_def
      default_options_def or_default_def toInt32_def)

text \<open>
  C8, as the claim states it, fails: the transform has output buffered and no consumer
  is waiting; the finalize step marks the output side ended and raises nothing.
\<close>

theorem done_without_notice:
  "length' tail_state = 4 \<and> Transform_done None tail_state = (tail_state\<lparr>ended := True\<rparr>, [])"
  by (simp add: tail_state_eq Transform_done_def)

text \<open>
  C8, amended. When the finalize step gets an error it raises a stream error and does
  not mark the output side ended. Otherwise it marks the output side ended, and then: if
  output is buffered and a consumer is waiting it raises an availability notification;
  if output is buffered and no consumer is waiting it raises nothing; if nothing is
  buffered it raises end-of-data at once.
\<close>

theorem Transform_done_cases:
  "Transform_done (Some e) rs = (rs, [Emit (Error e)])
   \<and> fst (Transform_done None rs) = rs\<lparr>ended := True\<rparr>
   \<and> (length' rs \<noteq> 0 \<and> needReadable rs \<longrightarrow> snd (Transform_done None rs) = [Emit Readable])
   \<and> (length' rs \<noteq> 0 \<and> \<not> needReadable rs \<longrightarrow> snd (Transform_done None rs) = [])
   \<and> (length' rs = 0 \<longrightarrow> snd (Transform_done None rs) = [Emit End])"
  by (simp add: Transform_done_def Let_def)

theorem Transform_done_cases_witness:
  "Transform_done (Some (Other ''failed'')) tail_state = (tail_state, [Emit (Error (Other ''failed''))])
   \<and> snd (Transform_done None (tail_state\<lparr>needReadable := True\<rparr>)) = [Emit Readable]
   \<and> snd (Transform_done None tail_state) = []
   \<and> snd (Transform_done None (ReadableState default_options :: char ReadableState)) = [Emit End]"
  using Transform_done_cases [of "Other ''failed''" tail_state]
    Transform_done_cases [of e "tail_state\<lparr>needReadable := True\<rparr>" for e]
    Transform_done_cases [of e "ReadableState default_options :: char ReadableState" for e]
  by (simp add: tail_state_eq ReadableState_def)

text \<open>
  C7. The wrapper holds one chunk and its old-style stream has ended. The read that
  drains the buffer throws a ReferenceError and schedules no end-of-data notification;
  the reads after it find the buffer empty and return nothing, again without one.
\<close>

theorem wrap_read_throws:
  "ended (fst wrapped_ab) \<and> buffer (fst wrapped_ab) = [''ab''] \<and> length' (fst wrapped_ab) = 2
   \<and> wrap_read None wrapped_ab
       = (Inl ReferenceError, ((fst wrapped_ab)\<lparr>buffer := [], length' := 0\<rparr>, False), [])
   \<and> wrap_read None ((fst wrapped_ab)\<lparr>buffer := [], length' := 0\<rparr>, False)
       = (Inr None, ((fst wrapped_ab)\<lparr>buffer := [], length' := 0, needReadable := True\<rparr>, False), [])"
  by (simp add: wrapped_ab_def wrap_on_end_def wrap_on_data_def wrap_read_def wanted_def
      ReadableState_def default_options_def or_default_def toInt32_def Let_def)

section \<open>Properties of a stream among its surroundings\<close>

text \<open>
  C1. A first read pulls; the producer answers with a chunk smaller than the low-water
  mark, and \<^verbatim>\<open>onread\<close> pulls again without setting \<^verbatim>\<open>reading\<close>: one request is
  open and the flag is false. The next read therefore pulls too: two requests are open.
\<close>

theorem two_requests_open:
  "pending (run [ReadCall None] one_chunk) = 1
   \<and> reading (state (run [ReadCall None] one_chunk))
   \<and> pending (run [ReadCall None, Reply] one_chunk) = 1
   \<and> \<not> reading (state (run [ReadCall None, Reply] one_chunk))
   \<and> pending (run [ReadCall None, Reply, ReadCall None] one_chunk) = 2"
  by code_simp

text \<open>
  C6. A stream whose producer had nothing has ended with an empty buffer. Two reads of
  it return nothing and, once the deferred tasks have run, end-of-data has been raised
  twice: \<^verbatim>\<open>read\<close> schedules the notification on every call.
\<close>

theorem end_raised_twice:
  "ended (state drained_world) \<and> length' (state drained_world) = 0
   \<and> fst (src_read None drained_world) = None
   \<and> fst (src_read None (step (ReadCall None) drained_world)) = None
   \<and> emitted (run [ReadCall None, ReadCall None, Tick, Tick] drained_world) = [End, End]"
  by code_simp

lemma src_read_at_end:
  "ended (state w) \<Longrightarrow> length' (state w) = 0 \<Longrightarrow>
   src_read n w = (None, w\<lparr>ticks := ticks w @ [TEmitEnd]\<rparr>)"
  by (simp add: src_read_def read_at_end)

lemma run_reads_at_end:
  "ended (state w) \<Longrightarrow> length' (state w) = 0 \<Longrightarrow> thrown w = None \<Longrightarrow>
   run (map ReadCall ns) w = w\<lparr>ticks := ticks w @ replicate (length ns) TEmitEnd\<rparr>"
proof (induction ns arbitrary: w)
  case Nil
  then show ?case by (simp add: run_def)
next
  case (Cons n ns)
  let ?w1 = "w\<lparr>ticks := ticks w @ [TEmitEnd]\<rparr>"
  have "step (ReadCall n) w = ?w1"
    using Cons.prems by (simp add: step_def src_read_at_end)
  moreover have "run (map ReadCall ns) ?w1 = ?w1\<lparr>ticks := ticks ?w1 @ replicate (length ns) TEmitEnd\<rparr>"
    using Cons.prems by (intro Cons.IH) simp_all
  ultimately show ?case
    by (simp add: run_def replicate_app_Cons_same)
qed

lemma emit_end_fold:
  "emitted (foldl (\<lambda>w1 l. w1\<lparr>end_ls := remove1 l (end_ls w1),
                  sinks := (sinks w1)(snd l := sink_end (sinks w1 (snd l)))\<rparr>) w ls) = emitted w
   \<and> ticks (foldl (\<lambda>w1 l. w1\<lparr>end_ls := remove1 l (end_ls w1),
                  sinks := (sinks w1)(snd l := sink_end (sinks w1 (snd l)))\<rparr>) w ls) = ticks w
   \<and> thrown (foldl (\<lambda>w1 l. w1\<lparr>end_ls := remove1 l (end_ls w1),
                  sinks := (sinks w1)(snd l := sink_end (sinks w1 (snd l)))\<rparr>) w ls) = thrown w
   \<and> state (foldl (\<lambda>w1 l. w1\<lparr>end_ls := remove1 l (end_ls w1),
                  sinks := (sinks w1)(snd l := sink_end (sinks w1 (snd l)))\<rparr>) w ls) = state w"
  by (induction ls arbitrary: w) simp_all

lemma emit_end_fields:
  "emitted (emit_end w) = emitted w @ [End]" "ticks (emit_end w) = ticks w"
  "thrown (emit_end w) = thrown w" "state (emit_end w) = state w"
  by (simp_all add: emit_end_def emit_end_fold)

lemma run_end_ticks:
  "thrown w = None \<Longrightarrow> ticks w = replicate k TEmitEnd \<Longrightarrow>
   emitted (run (replicate k Tick) w) = emitted w @ replicate k End
   \<and> ticks (run (replicate k Tick) w) = []
   \<and> state (run (replicate k Tick) w) = state w"
proof (induction k arbitrary: w)
  case 0
  then show ?case by (simp add: run_def)
next
  case (Suc k)
  let ?w1 = "emit_end (w\<lparr>ticks := replicate k TEmitEnd\<rparr>)"
  have s: "step Tick w = ?w1"
    using Suc.prems by (simp add: step_def run_task_def)
  have "thrown ?w1 = None" "ticks ?w1 = replicate k TEmitEnd"
    using Suc.prems by (simp_all add: emit_end_fields)
  from Suc.IH [OF this] s show ?case
    by (simp add: run_def emit_end_fields replicate_app_Cons_same)
qed

text \<open>
  The same for any number of reads of a stream that has ended with an empty buffer:
  each returns nothing, changes nothing in the stream and schedules one notification.
\<close>

lemma end_raised_per_read:
  assumes "ended (state w)" and "length' (state w) = 0" and "thrown w = None" and "ticks w = []"
  shows "fst (src_read n w) = None
    \<and> emitted (run (map ReadCall ns @ replicate (length ns) Tick) w)
        = emitted w @ replicate (length ns) End
    \<and> ticks (run (map ReadCall ns @ replicate (length ns) Tick) w) = []
    \<and> state (run (map ReadCall ns @ replicate (length ns) Tick) w) = state w"
proof -
  let ?w1 = "w\<lparr>ticks := ticks w @ replicate (length ns) TEmitEnd\<rparr>"
  have r: "run (map ReadCall ns) w = ?w1"
    using assms by (simp add: run_reads_at_end)
  have "thrown ?w1 = None" "ticks ?w1 = replicate (length ns) TEmitEnd"
    using assms by simp_all
  from run_end_ticks [OF this] r assms show ?thesis
    by (simp add: run_def src_read_at_end)
qed

text \<open>
  C4. Both chunks of the source reach the sink, in order. The producer's end of data
  arrives while the buffer is empty: \<^verbatim>\<open>onread\<close> marks the stream ended and raises
  nothing, the flow loop stays registered for a \<^verbatim>\<open>'readable'\<close> that never comes, no
  task and no request is left, \<^verbatim>\<open>'end'\<close> has not been emitted and the sink's
  \<^verbatim>\<open>end()\<close> has not been called.
\<close>

theorem sink_never_ended:
  "written (sinks one_sink_done (Sink 0)) = [''ab'', ''cd'']
   \<and> ended (state one_sink_done) \<and> buffer (state one_sink_done) = []
   \<and> ticks one_sink_done = [] \<and> pending one_sink_done = 0 \<and> script one_sink_done = []
   \<and> thrown one_sink_done = None
   \<and> readable_ls one_sink_done = [\<lparr>opt_end = None, chunkSize = None\<rparr>]
   \<and> end_ls one_sink_done = [(0, Sink 0)]
   \<and> emitted one_sink_done = [Readable, Data ''ab'', Readable, Data ''cd'']
   \<and> end_calls (sinks one_sink_done (Sink 0)) = 0"
  by code_simp

text \<open>
  C3. Two calls of \<^verbatim>\<open>pipe\<close> start two flow loops, since \<^verbatim>\<open>flowing\<close> is never set.
  The first sink refuses the first chunk, and the loop that delivered it waits for that
  sink's \<^verbatim>\<open>'drain'\<close>. The other loop is still registered for \<^verbatim>\<open>'readable'\<close>: when the
  producer answers again it reads the second chunk and writes it to both sinks, while
  the first sink has not drained.
\<close>

theorem backpressure_not_awaited:
  "written (sinks two_sinks_stalled (Sink 0)) = [''ab'']
   \<and> drain_ls two_sinks_stalled = [(Sink 0, 4, \<lparr>opt_end = None, chunkSize = None\<rparr>)]
   \<and> needDrain two_sinks_stalled 4 = 1
   \<and> readable_ls two_sinks_stalled = [\<lparr>opt_end = None, chunkSize = None\<rparr>]
   \<and> written (sinks (step Reply two_sinks_stalled) (Sink 0)) = [''ab'', ''cd'']
   \<and> drain_ls (step Reply two_sinks_stalled) = [(Sink 0, 4, \<lparr>opt_end = None, chunkSize = None\<rparr>)]
   \<and> needDrain (step Reply two_sinks_stalled) 4 = 1"
  by code_simp

section \<open>The listeners of end-of-data over a run\<close>

lemma keeps_refl: "keeps i w w"
  by (simp add: keeps_def)

lemma keeps_trans: "keeps i w w1 \<Longrightarrow> keeps i w1 w2 \<Longrightarrow> keeps i w w2"
  by (auto simp: keeps_def)

lemma read_pipes: "pipes (fst (snd (read n s))) = pipes s"
proof (cases "length' s = 0 \<and> ended s")
  case True
  then show ?thesis by (simp add: read_at_end)
next
  case not_end: False
  show ?thesis
  proof (cases "wanted n (length' s) > length' s \<and> \<not> ended s \<and> length' s < lowWaterMark s")
    case True
    then show ?thesis by (simp add: read_defer)
  next
    case False
    define k where "k = (if wanted n (length' s) > length' s then length' s else wanted n (length' s))"
    with not_end False show ?thesis
      by (simp add: read_with [where later = False and k = k] Let_def split: prod.splits)
  qed
qed

lemma onread_pipes: "pipes (fst (onread er chunk s)) = pipes s"
  by (simp add: onread_def Let_def split: option.splits)

lemma keeps_schedule: "keeps i w (schedule eff w)"
  by (cases eff) (simp_all add: keeps_def)

lemma keeps_fold_schedule: "keeps i w (fold schedule effs w)"
proof (induction effs arbitrary: w)
  case Nil
  show ?case by (simp add: keeps_refl)
next
  case (Cons eff effs)
  from keeps_trans [OF keeps_schedule Cons.IH] show ?case by simp
qed

lemma keeps_state: "pipes st = pipes (state w) \<Longrightarrow> keeps i w (w\<lparr>state := st\<rparr>)"
  by (simp add: keeps_def)

lemma keeps_src_read: "keeps i w (snd (src_read n w))"
proof -
  obtain ret st effs where r: "read n (state w) = (ret, st, effs)"
    by (cases "read n (state w)") auto
  with read_pipes [of n "state w"] have "keeps i w (w\<lparr>state := st\<rparr>)"
    by (simp add: keeps_state)
  from keeps_trans [OF this keeps_fold_schedule] r show ?thesis
    by (simp add: src_read_def)
qed

lemma keeps_deliver: "keeps i w (deliver chunk call pipeOpts w d)"
  by (simp add: deliver_def keeps_def Let_def split: prod.splits)

lemma keeps_foldl_deliver: "keeps i w (foldl (deliver chunk call pipeOpts) w ds)"
proof (induction ds arbitrary: w)
  case Nil
  show ?case by (simp add: keeps_refl)
next
  case (Cons d ds)
  from keeps_trans [OF keeps_deliver Cons.IH] show ?case by simp
qed

lemma keeps_flow_rest: "keeps i w (flow_rest pipeOpts w)"
  by (simp add: flow_rest_def keeps_def)

lemma keeps_flow_loop: "keeps i w (flow_loop call pipeOpts w)"
proof (induction call pipeOpts w rule: flow_loop.induct)
  case (1 call pipeOpts w)
  show ?case
  proof (cases "pipes (state w) = []")
    case True
    then show ?thesis by (subst flow_loop.simps) (simp add: keeps_flow_rest)
  next
    case False
    obtain ret w1 where r: "src_read (chunkSize pipeOpts) w = (ret, w1)"
      by (cases "src_read (chunkSize pipeOpts) w") auto
    with keeps_src_read [of i w "chunkSize pipeOpts"] have k1: "keeps i w w1" by simp
    show ?thesis
    proof (cases ret)
      case None
      with False r keeps_trans [OF k1 keeps_flow_rest] show ?thesis
        by (subst flow_loop.simps) simp
    next
      case (Some chunk)
      define w2 where "w2 = foldl (deliver chunk call pipeOpts) w1 (pipes (state w1))"
      define w3 where "w3 = w2\<lparr>emitted := emitted w2 @ [Data chunk]\<rparr>"
      have k3: "keeps i w w3"
        using keeps_trans [OF k1 keeps_foldl_deliver, of chunk call pipeOpts "pipes (state w1)"]
        by (simp add: w3_def w2_def keeps_def)
      show ?thesis
      proof (cases "needDrain w3 call > 0")
        case True
        with False r Some k3 show ?thesis
          by (subst flow_loop.simps) (simp add: w3_def w2_def Let_def)
      next
        case stay: False
        from "1.IH" [OF False r [symmetric] Some w2_def w3_def stay]
        have "keeps i w3 (flow_loop call pipeOpts w3)" .
        from keeps_trans [OF k3 this] False r Some stay show ?thesis
          by (subst flow_loop.simps) (simp add: w3_def w2_def Let_def)
      qed
    qed
  qed
qed

lemma occurs_remove1_le: "occurs i (remove1 l ls) \<le> occurs i ls"
  by (induction ls) (auto simp: occurs_def)

lemma occurs_remove1: "l \<in> set ls \<Longrightarrow> fst l = i \<Longrightarrow> occurs i ls = Suc (occurs i (remove1 l ls))"
  by (induction ls) (auto simp: occurs_def)

lemma occurs_removeListener_le: "occurs i (removeListener_end j ls) \<le> occurs i ls"
  by (simp add: removeListener_end_def occurs_remove1_le split: option.splits)

lemma occurs_removeListener:
  assumes "occurs i ls \<le> 1"
  shows "occurs i (removeListener_end i ls) = 0"
proof (cases "find (\<lambda>l. fst l = i) ls")
  case None
  then have "filter (\<lambda>l. fst l = i) ls = []"
    by (auto simp: find_None_iff filter_empty_conv)
  with None show ?thesis by (simp add: removeListener_end_def occurs_def)
next
  case (Some l)
  then have "l \<in> set ls" "fst l = i"
    by (auto simp: find_Some_iff)
  from occurs_remove1 [OF this] assms Some show ?thesis
    by (simp add: removeListener_end_def)
qed

lemma occurs_zero: "occurs i ls = 0 \<Longrightarrow> (i, d) \<notin> set ls"
  by (auto simp: occurs_def filter_empty_conv)

lemma occurs_fresh: "i \<notin> fst ` set ls \<Longrightarrow> occurs i ls = 0"
  by (auto simp: occurs_def filter_empty_conv)

lemma occurs_append: "occurs i (ls @ ms) = occurs i ls + occurs i ms"
  by (simp add: occurs_def)

lemma end_ls_unpipe_fold:
  "end_ls (foldl (\<lambda>w1 l. w1\<lparr>end_ls := removeListener_end (snd l) (end_ls w1)\<rparr>) w hs)
     = foldl (\<lambda>ls l. removeListener_end (snd l) ls) (end_ls w) hs"
  by (induction hs arbitrary: w) simp_all

lemma occurs_fold_le:
  "occurs i (foldl (\<lambda>ls l. removeListener_end (snd l) ls) ls hs) \<le> occurs i ls"
proof (induction hs arbitrary: ls)
  case Nil
  then show ?case by simp
next
  case (Cons h hs)
  have "occurs i (foldl (\<lambda>ls l. removeListener_end (snd l) ls) (removeListener_end (snd h) ls) hs)
          \<le> occurs i (removeListener_end (snd h) ls)"
    by (rule Cons.IH)
  also have "\<dots> \<le> occurs i ls" by (rule occurs_removeListener_le)
  finally show ?case by simp
qed

lemma occurs_fold_removed:
  assumes "occurs i ls \<le> 1" and "i \<in> snd ` set hs"
  shows "occurs i (foldl (\<lambda>ls l. removeListener_end (snd l) ls) ls hs) = 0"
  using assms
proof (induction hs arbitrary: ls)
  case Nil
  then show ?case by simp
next
  case (Cons h hs)
  show ?case
  proof (cases "snd h = i")
    case True
    with Cons.prems have "occurs i (removeListener_end (snd h) ls) = 0"
      by (simp add: occurs_removeListener)
    with occurs_fold_le [of i "removeListener_end (snd h) ls" hs] show ?thesis
      by simp
  next
    case False
    with Cons.prems have "i \<in> snd ` set hs" by auto
    moreover have "occurs i (removeListener_end (snd h) ls) \<le> 1"
      using occurs_removeListener_le [of i "snd h" ls] Cons.prems(1) by simp
    ultimately show ?thesis using Cons.IH by simp
  qed
qed

lemma emit_unpipe_end_ls:
  "end_ls (emit_unpipe d w)
     = foldl (\<lambda>ls l. removeListener_end (snd l) ls) (end_ls w) (filter (\<lambda>l. fst l = d) (unpipe_ls w))"
  by (simp add: emit_unpipe_def end_ls_unpipe_fold)

lemma emit_unpipe_unpipe_ls: "unpipe_ls (emit_unpipe d w) = unpipe_ls w"
proof -
  have "unpipe_ls (foldl (\<lambda>w1 l. w1\<lparr>end_ls := removeListener_end (snd l) (end_ls w1)\<rparr>) v hs) = unpipe_ls v"
    for v :: "'a world" and hs :: "(dest \<times> nat) list"
    by (induction hs arbitrary: v) simp_all
  then show ?thesis by (simp add: emit_unpipe_def)
qed

lemma emit_unpipe_removes:
  assumes "occurs i (end_ls w) \<le> 1" and "(d, i) \<in> set (unpipe_ls w)"
  shows "occurs i (end_ls (emit_unpipe d w)) = 0"
proof -
  from assms(2) have "i \<in> snd ` set (filter (\<lambda>l. fst l = d) (unpipe_ls w))"
    by force
  with assms(1) show ?thesis
    by (simp add: emit_unpipe_end_ls occurs_fold_removed)
qed

lemma emit_unpipe_keeps_out: "occurs i (end_ls (emit_unpipe d w)) \<le> occurs i (end_ls w)"
  by (simp add: emit_unpipe_end_ls occurs_fold_le)

lemma unpipe_all_fold:
  "occurs i (end_ls (foldl (\<lambda>w1 d. emit_unpipe d w1) w ds)) \<le> occurs i (end_ls w)
   \<and> unpipe_ls (foldl (\<lambda>w1 d. emit_unpipe d w1) w ds) = unpipe_ls w"
proof (induction ds arbitrary: w)
  case Nil
  then show ?case by simp
next
  case (Cons d ds)
  from Cons.IH [of "emit_unpipe d w"] emit_unpipe_keeps_out [of i d w]
  show ?case by (simp add: emit_unpipe_unpipe_ls)
qed

lemma unpipe_all_removes:
  assumes "occurs i (end_ls w) \<le> 1" and "(d, i) \<in> set (unpipe_ls w)" and "d \<in> set ds"
  shows "occurs i (end_ls (foldl (\<lambda>w1 d. emit_unpipe d w1) w ds)) = 0"
  using assms
proof (induction ds arbitrary: w)
  case Nil
  then show ?case by simp
next
  case (Cons e ds)
  show ?case
  proof (cases "e = d")
    case True
    with Cons.prems have "occurs i (end_ls (emit_unpipe e w)) = 0"
      by (simp add: emit_unpipe_removes)
    with unpipe_all_fold [of i "emit_unpipe e w" ds] show ?thesis by simp
  next
    case False
    with Cons.prems have "d \<in> set ds" by simp
    moreover have "occurs i (end_ls (emit_unpipe e w)) \<le> 1"
      using emit_unpipe_keeps_out [of i e w] Cons.prems(1) by simp
    moreover have "(d, i) \<in> set (unpipe_ls (emit_unpipe e w))"
      using Cons.prems(2) by (simp add: emit_unpipe_unpipe_ls)
    ultimately show ?thesis using Cons.IH by simp
  qed
qed


lemma keeps_flow: "keeps i w (flow pipeOpts w)"
proof -
  let ?w0 = "w\<lparr>next_id := next_id w + 1, needDrain := (needDrain w)(next_id w := 0)\<rparr>"
  have "keeps i w ?w0" by (simp add: keeps_def)
  from keeps_trans [OF this keeps_flow_loop] show ?thesis
    by (simp add: flow_def Let_def)
qed

lemma keeps_ondrain: "keeps i w (ondrain call pipeOpts w)"
proof -
  let ?w1 = "w\<lparr>needDrain := (needDrain w)(call := needDrain w call - 1)\<rparr>"
  have k: "keeps i w ?w1" by (simp add: keeps_def)
  show ?thesis
  proof (cases "needDrain ?w1 call = 0")
    case True
    with keeps_trans [OF k keeps_flow, of pipeOpts] show ?thesis
      by (simp add: ondrain_def Let_def)
  next
    case False
    with k show ?thesis by (simp add: ondrain_def Let_def)
  qed
qed

lemma keeps_foldl:
  assumes "\<And>v l. keeps i v (f v l)"
  shows "keeps i w (foldl f w ls)"
proof (induction ls arbitrary: w)
  case Nil
  show ?case by (simp add: keeps_refl)
next
  case (Cons l ls)
  from keeps_trans [OF assms Cons.IH] show ?case by simp
qed

lemma keeps_emit_readable: "keeps i w (emit_readable w)"
proof -
  have one: "keeps i v (if thrown v = None
               then flow pipeOpts (v\<lparr>readable_ls := remove1 pipeOpts (readable_ls v)\<rparr>) else v)"
    for v :: "'a world" and pipeOpts
  proof (cases "thrown v")
    case None
    have "keeps i v (v\<lparr>readable_ls := remove1 pipeOpts (readable_ls v)\<rparr>)"
      by (simp add: keeps_def)
    from keeps_trans [OF this keeps_flow] None show ?thesis by simp
  next
    case (Some e)
    then show ?thesis by (simp add: keeps_refl)
  qed
  have first: "keeps i w (w\<lparr>emitted := emitted w @ [Readable]\<rparr>)"
    by (simp add: keeps_def)
  show ?thesis
    unfolding emit_readable_def by (rule keeps_trans [OF first]) (rule keeps_foldl, rule one)
qed

lemma keeps_emit_drain: "keeps i w (emit_drain d w)"
proof -
  have one: "keeps i v (if thrown v = None
               then ondrain (fst (snd l)) (snd (snd l)) (v\<lparr>drain_ls := remove1 l (drain_ls v)\<rparr>)
               else v)"
    for v :: "'a world" and l
  proof (cases "thrown v")
    case None
    have "keeps i v (v\<lparr>drain_ls := remove1 l (drain_ls v)\<rparr>)"
      by (simp add: keeps_def)
    from keeps_trans [OF this keeps_ondrain] None show ?thesis by simp
  next
    case (Some e)
    then show ?thesis by (simp add: keeps_refl)
  qed
  show ?thesis
    unfolding emit_drain_def by (rule keeps_foldl) (rule one)
qed

lemma keeps_emit_end: "keeps i w (emit_end w)"
proof -
  have one: "keeps i v (v\<lparr>end_ls := remove1 l (end_ls v),
                  sinks := (sinks v)(snd l := sink_end (sinks v (snd l)))\<rparr>)"
    for v :: "'a world" and l
    by (simp add: keeps_def occurs_remove1_le)
  have first: "keeps i w (w\<lparr>emitted := emitted w @ [End]\<rparr>)"
    by (simp add: keeps_def)
  show ?thesis
    unfolding emit_end_def by (rule keeps_trans [OF first]) (rule keeps_foldl, rule one)
qed

lemma keeps_perform: "keeps i w (perform eff w)"
proof (cases eff)
  case (Emit ev)
  show ?thesis
  proof (cases ev)
    case Readable
    with Emit show ?thesis by (simp add: keeps_emit_readable)
  next
    case End
    with Emit show ?thesis by (simp add: keeps_emit_end)
  next
    case (Error e)
    with Emit show ?thesis by (simp add: keeps_def)
  next
    case (Data c)
    with Emit show ?thesis by (simp add: keeps_def)
  qed
qed (simp_all add: keeps_def)

lemma keeps_fold_perform: "keeps i w (fold perform effs w)"
proof (induction effs arbitrary: w)
  case Nil
  show ?case by (simp add: keeps_refl)
next
  case (Cons eff effs)
  from keeps_trans [OF keeps_perform Cons.IH] show ?case by simp
qed

lemma keeps_reply: "keeps i w (reply w)"
proof (cases "pending w = 0")
  case True
  then show ?thesis by (simp add: reply_def keeps_refl)
next
  case False
  obtain er chunk where e: "(case script w of [] \<Rightarrow> (None, None) | r # rest \<Rightarrow> r) = (er, chunk)"
    by (cases "case script w of [] \<Rightarrow> (None, None) | r # rest \<Rightarrow> r") auto
  obtain st effs where o: "onread er chunk (state w) = (st, effs)"
    by (cases "onread er chunk (state w)") auto
  have "keeps i w (w\<lparr>state := st, pending := pending w - 1, script := tl (script w)\<rparr>)"
    using onread_pipes [of er chunk "state w"] o by (simp add: keeps_def)
  from keeps_trans [OF this keeps_fold_perform] False e o show ?thesis
    by (simp add: reply_def)
qed

lemma keeps_run_task: "keeps i w (run_task t w)"
  by (cases t) (simp_all add: run_task_def keeps_flow keeps_emit_end)

lemma keeps_tick: "keeps i w (case ticks w of [] \<Rightarrow> w | t # rest \<Rightarrow> run_task t (w\<lparr>ticks := rest\<rparr>))"
proof (cases "ticks w")
  case Nil
  then show ?thesis by (simp add: keeps_refl)
next
  case (Cons t rest)
  have "keeps i w (w\<lparr>ticks := rest\<rparr>)" by (simp add: keeps_def)
  from keeps_trans [OF this keeps_run_task] Cons show ?thesis by simp
qed

text \<open>The steps other than pipe and unpipe.\<close>

lemma keeps_step:
  assumes "\<And>d given. a \<noteq> Pipe d given" and "\<And>given. a \<noteq> Unpipe given"
  shows "keeps i w (step a w)"
proof (cases "thrown w")
  case (Some e)
  then show ?thesis by (simp add: step_def keeps_refl)
next
  case None
  show ?thesis
  proof (cases a)
    case (Pipe d given)
    with assms show ?thesis by blast
  next
    case (Unpipe given)
    with assms show ?thesis by blast
  next
    case (ReadCall n)
    with None keeps_src_read [of i w n] show ?thesis by (simp add: step_def)
  next
    case Tick
    with None keeps_tick [of i w] show ?thesis by (simp add: step_def)
  next
    case Reply
    with None keeps_reply [of i w] show ?thesis by (simp add: step_def)
  next
    case (Drain d)
    with None keeps_emit_drain [of i w d] show ?thesis by (simp add: step_def)
  qed
qed

lemma pipe_standard:
  "d = Stdout \<or> d = Stderr \<Longrightarrow> end_ls (pipe d given w) = end_ls w \<and> unpipe_ls (pipe d given w) = unpipe_ls w"
  by (auto simp: pipe_def Let_def)

lemma pipe_attaches:
  assumes "d \<noteq> Stdout" "d \<noteq> Stderr" "wants_end given"
  shows "end_ls (pipe d given w) = end_ls w @ [(next_id w, d)]"
    and "unpipe_ls (pipe d given w) = unpipe_ls w @ [(d, next_id w)]"
    and "d \<in> set (pipes (state (pipe d given w)))"
    and "next_id (pipe d given w) = next_id w + 1"
  using assms by (auto simp: pipe_def Let_def wants_end_def split: option.splits)

lemma pipe_fields:
  "end_ls (pipe d given w) = end_ls w \<or> end_ls (pipe d given w) = end_ls w @ [(next_id w, d)]"
  "set (unpipe_ls w) \<subseteq> set (unpipe_ls (pipe d given w))"
  "next_id w \<le> next_id (pipe d given w)"
  "pipes (state (pipe d given w)) = pipes (state w) @ [d]"
  by (auto simp: pipe_def Let_def split: option.splits)

lemma attached_keeps: "attached i d w \<Longrightarrow> keeps i w w' \<Longrightarrow> attached i d w'"
  by (auto simp: attached_def keeps_def)

lemma attached_pipe:
  assumes "attached i d w"
  shows "attached i d (pipe e given w)"
proof -
  from assms have "i \<noteq> next_id w" by (simp add: attached_def)
  then have "occurs i (end_ls w @ [(next_id w, e)]) = occurs i (end_ls w)"
    by (simp add: occurs_def)
  with pipe_fields(1) [of e given w] have "occurs i (end_ls (pipe e given w)) = occurs i (end_ls w)"
    by auto
  moreover have "set (unpipe_ls w) \<subseteq> set (unpipe_ls (pipe e given w))"
    "next_id w \<le> next_id (pipe e given w)"
    "pipes (state (pipe e given w)) = pipes (state w) @ [e]"
    by (rule pipe_fields)+
  ultimately show ?thesis
    using assms by (auto simp: attached_def)
qed


lemma emit_unpipe_fields:
  "pipes (state (emit_unpipe d w)) = pipes (state w)" "next_id (emit_unpipe d w) = next_id w"
proof -
  have "pipes (state (foldl (\<lambda>w1 l. w1\<lparr>end_ls := removeListener_end (snd l) (end_ls w1)\<rparr>) v hs))
          = pipes (state v)
        \<and> next_id (foldl (\<lambda>w1 l. w1\<lparr>end_ls := removeListener_end (snd l) (end_ls w1)\<rparr>) v hs)
          = next_id v"
    for v :: "'a world" and hs :: "(dest \<times> nat) list"
    by (induction hs arbitrary: v) simp_all
  then show "pipes (state (emit_unpipe d w)) = pipes (state w)"
    and "next_id (emit_unpipe d w) = next_id w"
    by (simp_all add: emit_unpipe_def)
qed

lemma unpipe_all_fields:
  "next_id (foldl (\<lambda>w1 d. emit_unpipe d w1) w ds) = next_id w"
  by (induction ds arbitrary: w) (simp_all add: emit_unpipe_fields)

lemma unpipe_removes:
  assumes "attached i d w"
  shows "occurs i (end_ls (unpipe (Some d) w)) = 0" and "occurs i (end_ls (unpipe None w)) = 0"
proof -
  from assms have reg: "(d, i) \<in> set (unpipe_ls w)" and once: "occurs i (end_ls w) \<le> 1"
    and alt: "occurs i (end_ls w) = 0 \<or> d \<in> set (pipes (state w))"
    by (simp_all add: attached_def)
  show "occurs i (end_ls (unpipe (Some d) w)) = 0"
  proof (cases "d \<in> set (pipes (state w))")
    case True
    with emit_unpipe_removes [OF once reg] show ?thesis by (simp add: unpipe_def Let_def)
  next
    case False
    with alt show ?thesis by (simp add: unpipe_def)
  qed
  show "occurs i (end_ls (unpipe None w)) = 0"
  proof (cases "d \<in> set (pipes (state w))")
    case True
    from unpipe_all_removes [OF once reg True] show ?thesis by (simp add: unpipe_def Let_def)
  next
    case False
    with alt unpipe_all_fold [of i w "pipes (state w)"] show ?thesis
      by (simp add: unpipe_def Let_def)
  qed
qed

lemma attached_unpipe:
  assumes "attached i d w"
  shows "attached i d (unpipe given w)"
proof (cases given)
  case None
  have "unpipe_ls (unpipe None w) = unpipe_ls w" "next_id (unpipe None w) = next_id w"
    using unpipe_all_fold [of i w "pipes (state w)"]
    by (simp_all add: unpipe_def Let_def unpipe_all_fields)
  with unpipe_removes(2) [OF assms] assms None show ?thesis
    by (simp add: attached_def)
next
  case (Some e)
  show ?thesis
  proof (cases "e \<in> set (pipes (state w))")
    case False
    with assms Some show ?thesis by (simp add: unpipe_def)
  next
    case True
    have fields: "unpipe_ls (unpipe given w) = unpipe_ls w" "next_id (unpipe given w) = next_id w"
      "pipes (state (unpipe given w)) = remove1 e (pipes (state w))"
      "end_ls (unpipe given w) = end_ls (emit_unpipe e w)"
      using True Some by (simp_all add: unpipe_def Let_def emit_unpipe_unpipe_ls emit_unpipe_fields)
    show ?thesis
    proof (cases "e = d")
      case True
      with unpipe_removes(1) [OF assms] Some assms fields show ?thesis
        by (simp add: attached_def)
    next
      case False
      then have "d \<in> set (pipes (state w)) \<Longrightarrow> d \<in> set (remove1 e (pipes (state w)))"
        by simp
      with assms fields emit_unpipe_keeps_out [of i e w] show ?thesis
        by (auto simp: attached_def)
    qed
  qed
qed

lemma attached_step:
  assumes "attached i d w"
  shows "attached i d (step a w)"
proof (cases "thrown w")
  case (Some e)
  with assms show ?thesis by (simp add: step_def)
next
  case None
  show ?thesis
  proof (cases a)
    case (Pipe e given)
    with None attached_pipe [OF assms, of e given] show ?thesis
      by (simp add: step_def)
  next
    case (Unpipe given)
    with None attached_unpipe [OF assms, of given] show ?thesis
      by (simp add: step_def)
  next
    case (ReadCall n)
    then have "keeps i w (step a w)" by (intro keeps_step) simp_all
    with assms show ?thesis by (rule attached_keeps)
  next
    case Tick
    then have "keeps i w (step a w)" by (intro keeps_step) simp_all
    with assms show ?thesis by (rule attached_keeps)
  next
    case Reply
    then have "keeps i w (step a w)" by (intro keeps_step) simp_all
    with assms show ?thesis by (rule attached_keeps)
  next
    case (Drain e)
    then have "keeps i w (step a w)" by (intro keeps_step) simp_all
    with assms show ?thesis by (rule attached_keeps)
  qed
qed


lemma attached_run: "attached i d w \<Longrightarrow> attached i d (run as w)"
proof (induction as arbitrary: w)
  case Nil
  then show ?case by (simp add: run_def)
next
  case (Cons a as)
  from Cons.IH [OF attached_step [OF Cons.prems, of a]] show ?case
    by (simp add: run_def)
qed

text \<open>
  C10. \<^verbatim>\<open>pipe\<close> to the standard output or the standard error leaves the listeners of
  \<^verbatim>\<open>'end'\<close> as they are, whatever the options. To any other destination, with the
  \<^verbatim>\<open>end\<close> option not set to \<^verbatim>\<open>false\<close>, it adds a new listener that ends the
  destination; whatever happens afterwards (\<open>as\<close>), that listener is not registered
  after \<^verbatim>\<open>unpipe\<close> of the destination, nor after \<^verbatim>\<open>unpipe\<close> of all. The
  hypothesis: the number of a new closure is not that of a listener already there.
\<close>

theorem pipe_end_listener:
  assumes "next_id w \<notin> fst ` set (end_ls w)"
  shows "(d = Stdout \<or> d = Stderr \<longrightarrow> end_ls (pipe d given w) = end_ls w)
    \<and> (d \<noteq> Stdout \<and> d \<noteq> Stderr \<and> wants_end given \<longrightarrow>
         end_ls (pipe d given w) = end_ls w @ [(next_id w, d)]
         \<and> (next_id w, d) \<notin> set (end_ls (unpipe (Some d) (run as (pipe d given w))))
         \<and> (next_id w, d) \<notin> set (end_ls (unpipe None (run as (pipe d given w)))))"
proof -
  have "end_ls (pipe d given w) = end_ls w @ [(next_id w, d)]
         \<and> (next_id w, d) \<notin> set (end_ls (unpipe (Some d) (run as (pipe d given w))))
         \<and> (next_id w, d) \<notin> set (end_ls (unpipe None (run as (pipe d given w))))"
    if other: "d \<noteq> Stdout \<and> d \<noteq> Stderr \<and> wants_end given"
  proof -
    let ?w = "pipe d given w"
    from other have att: "end_ls ?w = end_ls w @ [(next_id w, d)]"
      "unpipe_ls ?w = unpipe_ls w @ [(d, next_id w)]" "d \<in> set (pipes (state ?w))"
      "next_id ?w = next_id w + 1"
      by (simp_all add: pipe_attaches)
    have once: "occurs (next_id w) (end_ls ?w) \<le> 1"
      using assms by (simp add: att occurs_append occurs_fresh) (simp add: occurs_def)
    with att have "attached (next_id w) d ?w"
      by (simp add: attached_def)
    then have "attached (next_id w) d (run as ?w)"
      by (rule attached_run)
    from unpipe_removes [OF this] att(1) show ?thesis
      by (simp add: occurs_zero)
  qed
  with pipe_standard [of d given w] show ?thesis by blast
qed


theorem pipe_end_listener_witness:
  "end_ls (pipe Stderr None three_piped) = [(0, Sink 0)]
   \<and> end_ls (pipe (Sink 2) (Some \<lparr>opt_end = Some True, chunkSize = None\<rparr>) three_piped)
        = [(0, Sink 0), (1, Sink 2)]
   \<and> (1, Sink 2) \<notin> set (end_ls (unpipe (Some (Sink 2))
          (run [Tick, Pipe (Sink 3) None, ReadCall None, Reply]
             (pipe (Sink 2) (Some \<lparr>opt_end = Some True, chunkSize = None\<rparr>) three_piped))))
   \<and> (1, Sink 2) \<notin> set (end_ls (unpipe None
          (run [Tick, Pipe (Sink 3) None, ReadCall None, Reply]
             (pipe (Sink 2) (Some \<lparr>opt_end = Some True, chunkSize = None\<rparr>) three_piped))))"
proof -
  have e: "end_ls three_piped = [(0, Sink 0)]" "next_id three_piped = 1"
    by code_simp+
  then have f: "next_id three_piped \<notin> fst ` set (end_ls three_piped)"
    by simp
  from pipe_end_listener [OF f, of Stderr None]
    pipe_end_listener [OF f, of "Sink 2" "Some \<lparr>opt_end = Some True, chunkSize = None\<rparr>"
      "[Tick, Pipe (Sink 3) None, ReadCall None, Reply]"] e
  show ?thesis by (simp add: wants_end_def)
qed

end
